theory Spec2Isabelle
  imports Main "HOL-Library.AList"
begin

section \<open>Values of the host language\<close>

text \<open>
  The values that reach \<open>index.js\<close>. A \<open>methodNames\<close> argument can be any value of the
  language; numbers are integers here (no fractions, no NaN). \<open>JArray xs\<close> is an array of
  the realm the module runs in, the ones for which \<open>instanceof Array\<close> holds, and
  \<open>JObject\<close> stands for any other object.
\<close>

datatype js_value =
    JUndefined
  | JNull
  | JBool bool
  | JNum int
  | JStr string
  | JArray "js_value list"
  | JObject

text \<open>What \<open>if (v)\<close> and \<open>v && ...\<close> test.\<close>

fun truthy :: "js_value \<Rightarrow> bool" where
  "truthy JUndefined = False"
| "truthy JNull = False"
| "truthy (JBool b) = b"
| "truthy (JNum n) = (n \<noteq> 0)"
| "truthy (JStr s) = (s \<noteq> [])"
| "truthy (JArray xs) = True"
| "truthy JObject = True"

text \<open>\<open>v instanceof Array\<close>.\<close>

fun instanceof_Array :: "js_value \<Rightarrow> bool" where
  "instanceof_Array (JArray xs) = True"
| "instanceof_Array v = False"

text \<open>\<open>key.endsWith(suffix)\<close> on strings.\<close>

definition endsWith :: "string \<Rightarrow> string \<Rightarrow> bool" where
  "endsWith s suffix =
     (length suffix \<le> length s \<and> drop (length s - length suffix) s = suffix)"

text \<open>
  \<open>methodNames.indexOf(key)\<close> on an array, for a string \<open>key\<close>: the position of the first
  element strictly equal to the string, or \<open>-1\<close>. Only a string element is strictly equal
  to a string.
\<close>

fun indexOf :: "js_value list \<Rightarrow> string \<Rightarrow> int" where
  "indexOf [] key = - 1"
| "indexOf (x # xs) key =
     (if x = JStr key then 0
      else if indexOf xs key = - 1 then - 1 else indexOf xs key + 1)"

section \<open>Functions, properties and targets\<close>

text \<open>
  A function value has an identity; two function values are the same object exactly when
  they are equal here. \<open>Declared i c\<close> is a function written in the program, with identity
  \<open>i\<close> and \<open>c\<close> what \<open>f.constructor.name\<close> reads (\<open>''Function''\<close>,
  \<open>''GeneratorFunction''\<close>, ...). \<open>CoWrapped i f\<close> is the function object that the
  \<open>i\<close>-th call of \<open>co.wrap\<close> built around \<open>f\<close>. Reading \<open>f.constructor.name\<close> always
  succeeds and gives a string.
\<close>

datatype func =
    Declared nat string
  | CoWrapped nat func

text \<open>\<open>f.constructor.name\<close>; what \<open>co.wrap\<close> returns is an ordinary function.\<close>

fun constructor_name :: "func \<Rightarrow> string" where
  "constructor_name (Declared i c) = c"
| "constructor_name (CoWrapped i f) = ''Function''"

text \<open>A property's value: a function (\<open>typeof v === 'function'\<close>) or anything else.\<close>

datatype pvalue =
    Fn func
  | Other js_value

fun typeof_function :: "pvalue \<Rightarrow> bool" where
  "typeof_function (Fn f) = True"
| "typeof_function (Other v) = False"

text \<open>
  An own property is a data property holding a value, or an accessor property.
  \<open>Accessor g s\<close> has the getter \<open>g\<close> (\<open>Some v\<close>: a getter that gives \<open>v\<close> when the
  property is read; \<open>None\<close>: no getter) and has a setter exactly when \<open>s\<close> holds.
\<close>

datatype property =
    Data pvalue
  | Accessor "pvalue option" bool

text \<open>
  A target is an object: its own properties in the order \<open>Object.getOwnPropertyNames\<close>
  lists them, and the properties it inherits through its prototype chain. The targets
  here are ordinary objects whose data properties can be assigned.
\<close>

record target =
  own :: "(string \<times> property) list"
  inherited :: "(string \<times> property) list"

text \<open>An object has each own property name once.\<close>

definition well_formed :: "target \<Rightarrow> bool" where
  "well_formed t = distinct (map fst (own t))"

definition getOwnPropertyNames :: "target \<Rightarrow> string list" where
  "getOwnPropertyNames t = map fst (own t)"

definition getOwnPropertyDescriptor :: "target \<Rightarrow> string \<Rightarrow> property option" where
  "getOwnPropertyDescriptor t key = map_of (own t) key"

fun read_prop :: "property \<Rightarrow> pvalue" where
  "read_prop (Data v) = v"
| "read_prop (Accessor (Some v) s) = v"
| "read_prop (Accessor None s) = Other JUndefined"

text \<open>\<open>target[key]\<close> read: the own property first, then the inherited one.\<close>

definition get_member :: "target \<Rightarrow> string \<Rightarrow> pvalue" where
  "get_member t key =
     (case map_of (own t) key of
        Some p \<Rightarrow> read_prop p
      | None \<Rightarrow>
          (case map_of (inherited t) key of
             Some p \<Rightarrow> read_prop p
           | None \<Rightarrow> Other JUndefined))"

text \<open>\<open>target[key] = v\<close> on an own data property: the value is replaced in place.\<close>

definition set_member :: "target \<Rightarrow> string \<Rightarrow> pvalue \<Rightarrow> target" where
  "set_member t key v = t\<lparr>own := AList.update key (Data v) (own t)\<rparr>"

text \<open>
  \<open>_actualMethodKeys\<close>: the own property names, first without those whose descriptor has
  a getter or a setter, then without those whose value is not a function. Every name
  listed has a descriptor, so the \<open>None\<close> case is never taken.
\<close>

definition actualMethodKeys :: "target \<Rightarrow> string list" where
  "actualMethodKeys t =
     filter (\<lambda>key. typeof_function (get_member t key))
       (filter
          (\<lambda>key. case getOwnPropertyDescriptor t key of
                    Some (Data v) \<Rightarrow> True
                  | Some (Accessor g s) \<Rightarrow> g = None \<and> \<not> s
                  | None \<Rightarrow> False)
          (getOwnPropertyNames t))"

section \<open>The adapter constructor\<close>

text \<open>
  Modelled from the spec: \<open>co.wrap\<close>, of the package \<open>co\<close> that \<open>index.js\<close> requires and
  that is not among the sources. The spec has a matched callable "replaced by a freshly
  constructed adapter": each call builds a new function object around the callable it is
  given. The natural number is the count of adapters built so far and gives the new
  adapter its identity.
\<close>

definition co_wrap :: "func \<Rightarrow> nat \<Rightarrow> func \<times> nat" where
  "co_wrap fn n = (CoWrapped n fn, Suc n)"

section \<open>wrapFunctions and getAllFunctions\<close>

text \<open>
  \<open>methodNames\<close> as \<open>wrapFunctions\<close> and \<open>getAllFunctions\<close> read it: \<open>None\<close> when
  \<open>if (methodNames)\<close> is false, \<open>Some xs\<close> when it is the array \<open>xs\<close>. Both functions are
  internal to the module and are only called with \<open>undefined\<close> or with a value that
  \<open>validateMethodNames\<close> has let through.

  The callback of \<open>forEach\<close> in \<open>wrapFunctions\<close>, at \<open>key\<close>, on the target as it is at that
  moment. The keys come from \<open>_actualMethodKeys\<close>, so \<open>target[key]\<close> is a function there.
\<close>

definition wrap_callback :: "js_value list option \<Rightarrow> string \<Rightarrow> target \<times> nat \<Rightarrow> target \<times> nat" where
  "wrap_callback methodNames key st =
     (case st of (t, n) \<Rightarrow>
       (case get_member t key of
          Other v \<Rightarrow> (t, n)
        | Fn fn \<Rightarrow>
            (let constructor = constructor_name fn in
             if (case methodNames of
                   Some names \<Rightarrow> indexOf names key = - 1
                 | None \<Rightarrow> \<not> endsWith key ''Async'' \<and> constructor \<noteq> ''GeneratorFunction'')
             then (t, n)
             else if constructor_name fn = ''GeneratorFunction''
             then (case co_wrap fn n of (a, n') \<Rightarrow> (set_member t key (Fn a), n'))
             else (case co_wrap fn n of (a, n') \<Rightarrow> (set_member t key (Fn a), n')))))"

definition wrapFunctions :: "target \<Rightarrow> js_value list option \<Rightarrow> nat \<Rightarrow> target \<times> nat" where
  "wrapFunctions t methodNames n = fold (wrap_callback methodNames) (actualMethodKeys t) (t, n)"

text \<open>
  \<open>functions[key] = v\<close> in \<open>getAllFunctions\<close>, where \<open>functions\<close> starts as the object
  literal \<open>{}\<close> and \<open>v\<close> is a function. The object is a list of names and values in the
  order they were first assigned. For any name but \<open>__proto__\<close> the assignment adds the
  entry or replaces its value. For \<open>__proto__\<close> it runs the setter that \<open>{}\<close> inherits from
  \<open>Object.prototype\<close>: \<open>v\<close> becomes the prototype of \<open>functions\<close> and no entry is added.
  (In \<open>wrapFunctions\<close> the assignment \<open>target[key] = v\<close> is to a property the target has of
  its own, under every name, so \<open>set_member\<close> replaces its value.)
\<close>

definition put_entry :: "string \<Rightarrow> pvalue \<Rightarrow> (string \<times> pvalue) list \<Rightarrow> (string \<times> pvalue) list" where
  "put_entry key v functions =
     (if key = ''__proto__'' then functions else AList.update key v functions)"

text \<open>
  The callback of \<open>map\<close> in \<open>getAllFunctions\<close>: it reads the target and writes the fresh
  object \<open>functions\<close>.
\<close>

definition collect_callback ::
  "target \<Rightarrow> js_value list option \<Rightarrow> string \<Rightarrow> (string \<times> pvalue) list \<times> nat \<Rightarrow>
     (string \<times> pvalue) list \<times> nat" where
  "collect_callback t methodNames key st =
     (case st of (functions, n) \<Rightarrow>
       (case get_member t key of
          Other v \<Rightarrow> (functions, n)
        | Fn fn \<Rightarrow>
            (let constructor = constructor_name fn;
                 isAsyncFunction = (endsWith key ''Async'' \<or> constructor = ''GeneratorFunction'')
             in
             (case methodNames of
                Some names \<Rightarrow>
                  if indexOf names key = - 1 then (functions, n)
                  else if constructor_name fn = ''GeneratorFunction''
                  then (case co_wrap fn n of (a, n') \<Rightarrow> (put_entry key (Fn a) functions, n'))
                  else (case co_wrap fn n of (a, n') \<Rightarrow> (put_entry key (Fn a) functions, n'))
              | None \<Rightarrow>
                  if key = ''constructor'' then (functions, n)
                  else if \<not> isAsyncFunction then (put_entry key (Fn fn) functions, n)
                  else if constructor_name fn = ''GeneratorFunction''
                  then (case co_wrap fn n of (a, n') \<Rightarrow> (put_entry key (Fn a) functions, n'))
                  else (case co_wrap fn n of (a, n') \<Rightarrow> (put_entry key (Fn a) functions, n'))))))"

definition getAllFunctions ::
  "target \<Rightarrow> js_value list option \<Rightarrow> nat \<Rightarrow> (string \<times> pvalue) list \<times> nat" where
  "getAllFunctions t methodNames n =
     fold (collect_callback t methodNames) (actualMethodKeys t) ([], n)"

section \<open>The exported functions\<close>

datatype error = InvalidArgument

text \<open>
  \<open>validateMethodNames\<close> throws when \<open>methodNames\<close> is truthy and not an array. When it
  returns, the value is falsy or an array, and the model hands on the reading of it that
  the rest of the module uses: \<open>None\<close> for a falsy value, \<open>Some xs\<close> for the array \<open>xs\<close>.
\<close>

definition validateMethodNames :: "js_value \<Rightarrow> error + js_value list option" where
  "validateMethodNames methodNames =
     (if truthy methodNames \<and> \<not> instanceof_Array methodNames then Inl InvalidArgument
      else Inr (case methodNames of JArray xs \<Rightarrow> Some xs | _ \<Rightarrow> None))"

text \<open>
  A class: the identity of the class object, the class object as a target (the static
  surface) and \<open>klass.prototype\<close> as a target (the instance surface).
\<close>

record klass =
  ident :: nat
  statics :: target
  prototype :: target

text \<open>
  Each exported function takes the class and the count of adapters built so far, and
  gives what the call evaluates to (the error thrown, or the identity of the object
  returned), the class as the call leaves it, and the new count.
\<close>

definition wrapStaticMethods :: "klass \<Rightarrow> js_value \<Rightarrow> nat \<Rightarrow> (error + nat) \<times> klass \<times> nat" where
  "wrapStaticMethods k methodNames n =
     (case validateMethodNames methodNames of
        Inl e \<Rightarrow> (Inl e, k, n)
      | Inr names \<Rightarrow>
          (case wrapFunctions (statics k) names n of
             (t, n') \<Rightarrow> (Inr (ident k), k\<lparr>statics := t\<rparr>, n')))"

definition wrapInstanceMethods :: "klass \<Rightarrow> js_value \<Rightarrow> nat \<Rightarrow> (error + nat) \<times> klass \<times> nat" where
  "wrapInstanceMethods k methodNames n =
     (case validateMethodNames methodNames of
        Inl e \<Rightarrow> (Inl e, k, n)
      | Inr names \<Rightarrow>
          (case wrapFunctions (prototype k) names n of
             (t, n') \<Rightarrow> (Inr (ident k), k\<lparr>prototype := t\<rparr>, n')))"

definition wrap :: "klass \<Rightarrow> js_value \<Rightarrow> nat \<Rightarrow> (error + nat) \<times> klass \<times> nat" where
  "wrap k methodNames n =
     (case validateMethodNames methodNames of
        Inl e \<Rightarrow> (Inl e, k, n)
      | Inr names \<Rightarrow>
          (case wrapStaticMethods k methodNames n of
             (Inl e, k1, n1) \<Rightarrow> (Inl e, k1, n1)
           | (Inr r1, k1, n1) \<Rightarrow>
               (case wrapInstanceMethods k1 methodNames n1 of
                  (Inl e, k2, n2) \<Rightarrow> (Inl e, k2, n2)
                | (Inr r2, k2, n2) \<Rightarrow> (Inr (ident k2), k2, n2))))"

text \<open>
  \<open>getStaticMethods\<close> and \<open>getInstanceMethods\<close> pass no \<open>methodNames\<close>: \<open>getAllFunctions\<close>
  reads \<open>undefined\<close>. They give the fresh mapping, the class as the call leaves it, and
  the new count.
\<close>

definition getStaticMethods :: "klass \<Rightarrow> nat \<Rightarrow> (string \<times> pvalue) list \<times> klass \<times> nat" where
  "getStaticMethods k n =
     (case getAllFunctions (statics k) None n of (functions, n') \<Rightarrow> (functions, k, n'))"

definition getInstanceMethods :: "klass \<Rightarrow> nat \<Rightarrow> (string \<times> pvalue) list \<times> klass \<times> nat" where
  "getInstanceMethods k n =
     (case getAllFunctions (prototype k) None n of (functions, n') \<Rightarrow> (functions, k, n'))"

section \<open>The selection rule and the simplified wrapping\<close>

text \<open>
  The test of lines 83 to 87 of \<open>wrapFunctions\<close>, read positively: the callback goes on to
  wrap \<open>target[key]\<close> exactly when this holds.
\<close>

definition selected :: "js_value list option \<Rightarrow> string \<Rightarrow> func \<Rightarrow> bool" where
  "selected methodNames key fn =
     (case methodNames of
        Some names \<Rightarrow> indexOf names key \<noteq> - 1
      | None \<Rightarrow> endsWith key ''Async'' \<or> constructor_name fn = ''GeneratorFunction'')"

text \<open>
  The test of lines 106 to 109 of \<open>getAllFunctions\<close>, read positively: the callback
  reaches an assignment \<open>functions[key] = ...\<close> exactly when this holds.
\<close>

definition included :: "js_value list option \<Rightarrow> string \<Rightarrow> bool" where
  "included methodNames key =
     (case methodNames of
        Some names \<Rightarrow> indexOf names key \<noteq> - 1
      | None \<Rightarrow> key \<noteq> ''constructor'')"

text \<open>
  \<open>wrapFunctions\<close> and \<open>getAllFunctions\<close> with the test on \<open>'GeneratorFunction'\<close> that
  chooses between the two wrapping branches taken out: one call of \<open>co.wrap\<close> for every
  selected callable.
\<close>

definition wrap_callback_uniform ::
  "js_value list option \<Rightarrow> string \<Rightarrow> target \<times> nat \<Rightarrow> target \<times> nat" where
  "wrap_callback_uniform methodNames key st =
     (case st of (t, n) \<Rightarrow>
       (case get_member t key of
          Other v \<Rightarrow> (t, n)
        | Fn fn \<Rightarrow>
            (let constructor = constructor_name fn in
             if (case methodNames of
                   Some names \<Rightarrow> indexOf names key = - 1
                 | None \<Rightarrow> \<not> endsWith key ''Async'' \<and> constructor \<noteq> ''GeneratorFunction'')
             then (t, n)
             else (case co_wrap fn n of (a, n') \<Rightarrow> (set_member t key (Fn a), n')))))"

definition wrapFunctions_uniform :: "target \<Rightarrow> js_value list option \<Rightarrow> nat \<Rightarrow> target \<times> nat" where
  "wrapFunctions_uniform t methodNames n =
     fold (wrap_callback_uniform methodNames) (actualMethodKeys t) (t, n)"

definition collect_callback_uniform ::
  "target \<Rightarrow> js_value list option \<Rightarrow> string \<Rightarrow> (string \<times> pvalue) list \<times> nat \<Rightarrow>
     (string \<times> pvalue) list \<times> nat" where
  "collect_callback_uniform t methodNames key st =
     (case st of (functions, n) \<Rightarrow>
       (case get_member t key of
          Other v \<Rightarrow> (functions, n)
        | Fn fn \<Rightarrow>
            (let constructor = constructor_name fn;
                 isAsyncFunction = (endsWith key ''Async'' \<or> constructor = ''GeneratorFunction'')
             in
             (case methodNames of
                Some names \<Rightarrow>
                  if indexOf names key = - 1 then (functions, n)
                  else (case co_wrap fn n of (a, n') \<Rightarrow> (put_entry key (Fn a) functions, n'))
              | None \<Rightarrow>
                  if key = ''constructor'' then (functions, n)
                  else if \<not> isAsyncFunction then (put_entry key (Fn fn) functions, n)
                  else (case co_wrap fn n of (a, n') \<Rightarrow> (put_entry key (Fn a) functions, n'))))))"

definition getAllFunctions_uniform ::
  "target \<Rightarrow> js_value list option \<Rightarrow> nat \<Rightarrow> (string \<times> pvalue) list \<times> nat" where
  "getAllFunctions_uniform t methodNames n =
     fold (collect_callback_uniform t methodNames) (actualMethodKeys t) ([], n)"

section \<open>Driving a suspend-style callable\<close>

text \<open>
  Modelled from the spec: what the adapter built by \<open>co.wrap\<close> does when it is invoked on
  a suspend-style callable. The package \<open>co\<close> is not among the sources; the definitions
  follow section 4.2 of the spec. A deferred result is given by the state it ends in. A
  step sequence is a state machine: started, or resumed with a value, or with a fault
  thrown in at the point where it is suspended, it yields a deferred value and suspends
  again, or completes with a final value, or raises.
\<close>

datatype deferred =
    Fulfilled js_value
  | Rejected js_value
  | Pending

datatype signal =
    Begin
  | Resume js_value
  | Inject js_value

datatype 's step =
    Yield deferred 's
  | Complete js_value
  | Raise js_value

text \<open>
  A suspend-style callable: invoked with a receiver and arguments it gives the first
  state of a step sequence, and \<open>resume\<close> runs the sequence from a state on a signal.
\<close>

record 's suspending =
  start :: "js_value \<Rightarrow> js_value list \<Rightarrow> 's"
  resume :: "'s \<Rightarrow> signal \<Rightarrow> 's step"

text \<open>
  The driver "repeatedly resumes the sequence by supplying the resolved value of whatever
  deferred value it yielded, and repeats until the sequence signals completion"; a
  rejection is "fed back into the sequence as a thrown fault at the suspension point";
  "if the sequence itself raises, the adapter's returned deferred result rejects with that
  fault"; "on normal completion, the adapter's deferred result resolves with the
  sequence's final value". The list records the signals sent to the sequence, in order.
  The value is \<open>None\<close> when the driving never ends.
\<close>

partial_function (option) drive ::
  "('s \<Rightarrow> signal \<Rightarrow> 's step) \<Rightarrow> 's \<Rightarrow> signal \<Rightarrow> signal list \<Rightarrow> (deferred \<times> signal list) option" where
  "drive run s sig sent =
     (case run s sig of
        Complete v \<Rightarrow> Some (Fulfilled v, sent @ [sig])
      | Raise e \<Rightarrow> Some (Rejected e, sent @ [sig])
      | Yield d s' \<Rightarrow>
          (case d of
             Fulfilled v \<Rightarrow> drive run s' (Resume v) (sent @ [sig])
           | Rejected e \<Rightarrow> drive run s' (Inject e) (sent @ [sig])
           | Pending \<Rightarrow> Some (Pending, sent @ [sig])))"

text \<open>
  One invocation of the adapted callable: the state its deferred result ends in and the
  signals the step sequence received.
\<close>

definition adapted_call ::
  "'s suspending \<Rightarrow> js_value \<Rightarrow> js_value list \<Rightarrow> (deferred \<times> signal list) option" where
  "adapted_call c this args = drive (resume c) (start c this args) Begin []"

section \<open>An example class\<close>

text \<open>
  A class with a static \<open>computeAsync\<close> and \<open>helper\<close>, and on its prototype the
  constructor, the generator methods \<open>loadAsync\<close> and \<open>steps\<close>, the plain methods \<open>run\<close>
  and \<open>saveAsync\<close>, a getter \<open>size\<close> that gives a function, and a number \<open>count\<close>.
\<close>

definition Example :: klass where
  "Example =
     \<lparr>ident = 7,
      statics =
        \<lparr>own =
           [(''length'', Data (Other (JNum 0))),
            (''name'', Data (Other (JStr ''Example''))),
            (''prototype'', Data (Other JObject)),
            (''computeAsync'', Data (Fn (Declared 1 ''Function''))),
            (''helper'', Data (Fn (Declared 2 ''Function'')))],
         inherited = [(''constructor'', Data (Fn (Declared 0 ''Function'')))]\<rparr>,
      prototype =
        \<lparr>own =
           [(''constructor'', Data (Fn (Declared 7 ''Function''))),
            (''loadAsync'', Data (Fn (Declared 3 ''GeneratorFunction''))),
            (''steps'', Data (Fn (Declared 4 ''GeneratorFunction''))),
            (''run'', Data (Fn (Declared 5 ''Function''))),
            (''saveAsync'', Data (Fn (Declared 6 ''Function''))),
            (''size'', Accessor (Some (Fn (Declared 8 ''Function''))) False),
            (''count'', Data (Other (JNum 0)))],
         inherited = [(''toString'', Data (Fn (Declared 9 ''Function'')))]\<rparr>\<rparr>"

text \<open>
  A generator function with two suspension points and no handler of its own: it yields a
  deferred value that resolves to \<open>'a'\<close>, then one that resolves to \<open>'b'\<close>, then returns
  \<open>'c'\<close>; a fault thrown in at a suspension point leaves it as it is.
\<close>

definition two_steps :: "nat suspending" where
  "two_steps =
     \<lparr>start = (\<lambda>this args. 0),
      resume = (\<lambda>s sig.
        case sig of
          Inject e \<Rightarrow> Raise e
        | _ \<Rightarrow>
            if s = 0 then Yield (Fulfilled (JStr ''a'')) 1
            else if s = 1 then Yield (Fulfilled (JStr ''b'')) 2
            else Complete (JStr ''c''))\<rparr>"

text \<open>
  A class whose prototype has, beside the constructor and a plain method \<open>run\<close>, a plain
  method of its own named \<open>__proto__\<close>, as \<open>class WithProto { __proto__() {} run() {} }\<close>
  declares it.
\<close>

definition WithProto :: klass where
  "WithProto =
     \<lparr>ident = 20,
      statics =
        \<lparr>own =
           [(''length'', Data (Other (JNum 0))),
            (''name'', Data (Other (JStr ''WithProto''))),
            (''prototype'', Data (Other JObject))],
         inherited = [(''constructor'', Data (Fn (Declared 0 ''Function'')))]\<rparr>,
      prototype =
        \<lparr>own =
           [(''constructor'', Data (Fn (Declared 20 ''Function''))),
            (''__proto__'', Data (Fn (Declared 21 ''Function''))),
            (''run'', Data (Fn (Declared 22 ''Function'')))],
         inherited = [(''toString'', Data (Fn (Declared 9 ''Function'')))]\<rparr>\<rparr>"

section \<open>Properties of a call\<close>

text \<open>
  \<open>adapter_of n n' new old\<close>: \<open>new\<close> is the function object that a call of \<open>co.wrap\<close>
  numbered from \<open>n\<close> and below \<open>n'\<close> built around the function \<open>old\<close>. With \<open>n\<close> the count
  before an operation and \<open>n'\<close> the count after it, the adapter was built by that
  operation.
\<close>

fun adapter_of :: "nat \<Rightarrow> nat \<Rightarrow> pvalue \<Rightarrow> pvalue \<Rightarrow> bool" where
  "adapter_of n n' (Fn (CoWrapped m g)) (Fn fn) = (n \<le> m \<and> m < n' \<and> g = fn)"
| "adapter_of n n' new old = False"

text \<open>
  A target \<open>t\<close> has become \<open>t'\<close> by wrapping under a rule: every callable that
  \<open>_actualMethodKeys\<close> lists and the rule selects is now an adapter built around it, and
  every other one is the function it was.
\<close>

definition wrapped_by_rule ::
  "(string \<Rightarrow> func \<Rightarrow> bool) \<Rightarrow> target \<Rightarrow> nat \<Rightarrow> target \<Rightarrow> nat \<Rightarrow> bool" where
  "wrapped_by_rule rule t n t' n' =
     (\<forall>key fn. key \<in> set (actualMethodKeys t) \<and> get_member t key = Fn fn \<longrightarrow>
        (if rule key fn then adapter_of n n' (get_member t' key) (Fn fn)
         else get_member t' key = Fn fn))"

text \<open>
  Nothing but the listed callables has changed: the inherited members, the own property
  names, and every property that \<open>_actualMethodKeys\<close> does not list.
\<close>

definition same_outside_methods :: "target \<Rightarrow> target \<Rightarrow> bool" where
  "same_outside_methods t t' =
     (inherited t' = inherited t \<and> getOwnPropertyNames t' = getOwnPropertyNames t \<and>
      (\<forall>key. key \<notin> set (actualMethodKeys t) \<longrightarrow>
         getOwnPropertyDescriptor t' key = getOwnPropertyDescriptor t key \<and>
         get_member t' key = get_member t key))"

text \<open>
  The mapping that \<open>getAllFunctions\<close> returns without a filter: it has exactly the listed
  callables other than \<open>constructor\<close> and \<open>__proto__\<close>, an adapter built by this call for
  one whose name ends with \<open>Async\<close> or that is a generator function, and the function
  itself otherwise.
\<close>

definition collects_methods :: "target \<Rightarrow> nat \<Rightarrow> (string \<times> pvalue) list \<Rightarrow> nat \<Rightarrow> bool" where
  "collects_methods t n functions n' =
     ((\<forall>key. map_of functions key = None \<longleftrightarrow>
         key \<notin> set (actualMethodKeys t) \<or> key = ''constructor'' \<or> key = ''__proto__'') \<and>
      (\<forall>key fn. key \<in> set (actualMethodKeys t) \<and> key \<noteq> ''constructor'' \<and>
         key \<noteq> ''__proto__'' \<and> get_member t key = Fn fn \<longrightarrow>
         (if endsWith key ''Async'' \<or> constructor_name fn = ''GeneratorFunction''
          then \<exists>a. map_of functions key = Some a \<and> adapter_of n n' a (Fn fn)
          else map_of functions key = Some (Fn fn))))"

text \<open>A value that is a function with \<open>constructor.name === 'GeneratorFunction'\<close>.\<close>

fun generator_valued :: "pvalue \<Rightarrow> bool" where
  "generator_valued (Fn fn) = (constructor_name fn = ''GeneratorFunction'')"
| "generator_valued (Other v) = False"

text \<open>The property \<open>constructor\<close> of \<open>t'\<close> is the one of \<open>t\<close>: same descriptor, same value.\<close>

definition constructor_unchanged :: "target \<Rightarrow> target \<Rightarrow> bool" where
  "constructor_unchanged t t' =
     (getOwnPropertyDescriptor t' ''constructor'' = getOwnPropertyDescriptor t ''constructor'' \<and>
      get_member t' ''constructor'' = get_member t ''constructor'')"

section \<open>Reading the filter and the own properties\<close>

lemma indexOf_lower: "- 1 \<le> indexOf xs key"
  by (induction xs) auto

lemma indexOf_absent: "indexOf xs key = - 1 \<longleftrightarrow> JStr key \<notin> set xs"
proof (induction xs)
  case Nil
  show ?case by simp
next
  case (Cons x xs)
  have "indexOf xs key + 1 \<noteq> - 1"
    using indexOf_lower [of xs key] by arith
  with Cons show ?case by auto
qed

lemma own_key_iff: "key \<in> set (getOwnPropertyNames t) \<longleftrightarrow> map_of (own t) key \<noteq> None"
  by (simp add: getOwnPropertyNames_def map_of_eq_None_iff)

lemma actualMethodKeys_iff:
  "key \<in> set (actualMethodKeys t) \<longleftrightarrow> (\<exists>fn. map_of (own t) key = Some (Data (Fn fn)))"
proof (cases "map_of (own t) key")
  case None
  then show ?thesis
    by (simp add: actualMethodKeys_def own_key_iff getOwnPropertyDescriptor_def)
next
  case (Some p)
  show ?thesis
  proof (cases p)
    case (Data v)
    with Some show ?thesis
      by (cases v)
        (simp_all add: actualMethodKeys_def own_key_iff getOwnPropertyDescriptor_def
          get_member_def)
  next
    case (Accessor g s)
    with Some show ?thesis
      by (cases g)
        (simp_all add: actualMethodKeys_def own_key_iff getOwnPropertyDescriptor_def
          get_member_def)
  qed
qed

lemma distinct_actualMethodKeys: "well_formed t \<Longrightarrow> distinct (actualMethodKeys t)"
  by (simp add: well_formed_def actualMethodKeys_def getOwnPropertyNames_def)

lemma get_member_own: "map_of (own t) key = Some (Data v) \<Longrightarrow> get_member t key = v"
  by (simp add: get_member_def)

lemma set_member_own:
  "map_of (own (set_member t key v)) k = (if k = key then Some (Data v) else map_of (own t) k)"
  by (simp add: set_member_def update_conv')

lemma set_member_names:
  "map_of (own t) key \<noteq> None \<Longrightarrow> map fst (own (set_member t key v)) = map fst (own t)"
  by (simp add: set_member_def update_keys map_of_eq_None_iff)

lemma set_member_inherited: "inherited (set_member t key v) = inherited t"
  by (simp add: set_member_def)

section \<open>What the two loops leave behind\<close>

lemma wrap_callback_Fn:
  assumes "map_of (own t) key = Some (Data (Fn fn))"
  shows "wrap_callback mn key (t, n) =
           (if selected mn key fn then (set_member t key (Fn (CoWrapped n fn)), Suc n) else (t, n))"
  using assms
  by (cases mn) (auto simp: wrap_callback_def get_member_own selected_def co_wrap_def Let_def)

lemma fold_wrap_callback:
  assumes "distinct ks"
    and "\<forall>k \<in> set ks. \<exists>fn. map_of (own t) k = Some (Data (Fn fn))"
    and "fold (wrap_callback mn) ks (t, n) = (t', n')"
  shows "inherited t' = inherited t \<and> n \<le> n' \<and> map fst (own t') = map fst (own t) \<and>
         (\<forall>k. k \<notin> set ks \<longrightarrow> map_of (own t') k = map_of (own t) k) \<and>
         (\<forall>k fn. k \<in> set ks \<and> map_of (own t) k = Some (Data (Fn fn)) \<longrightarrow>
            (if selected mn k fn
             then \<exists>m. n \<le> m \<and> m < n' \<and> map_of (own t') k = Some (Data (Fn (CoWrapped m fn)))
             else map_of (own t') k = Some (Data (Fn fn))))"
  using assms
proof (induction ks arbitrary: t n)
  case Nil
  then show ?case by simp
next
  case (Cons k0 ks)
  from Cons.prems(2) obtain f0 where f0: "map_of (own t) k0 = Some (Data (Fn f0))"
    by auto
  obtain t1 n1 where step: "wrap_callback mn k0 (t, n) = (t1, n1)"
    by (cases "wrap_callback mn k0 (t, n)")
  have t1: "t1 = (if selected mn k0 f0 then set_member t k0 (Fn (CoWrapped n f0)) else t)"
    and n1: "n1 = (if selected mn k0 f0 then Suc n else n)"
    using step wrap_callback_Fn [OF f0, of mn n] by (auto split: if_splits)
  have other: "map_of (own t1) k = map_of (own t) k" if "k \<noteq> k0" for k
    using that by (simp add: t1 set_member_own)
  have at_k0: "map_of (own t1) k0 =
      (if selected mn k0 f0 then Some (Data (Fn (CoWrapped n f0))) else Some (Data (Fn f0)))"
    by (simp add: t1 set_member_own f0)
  have names: "map fst (own t1) = map fst (own t)"
    using f0 by (simp add: t1 set_member_names)
  have inh: "inherited t1 = inherited t"
    by (simp add: t1 set_member_inherited)
  have k0_out: "k0 \<notin> set ks" and dist: "distinct ks"
    using Cons.prems(1) by simp_all
  have pre: "\<forall>k \<in> set ks. \<exists>fn. map_of (own t1) k = Some (Data (Fn fn))"
    using Cons.prems(2) k0_out other by (metis list.set_intros(2))
  have rest: "fold (wrap_callback mn) ks (t1, n1) = (t', n')"
    using Cons.prems(3) step by simp
  note IH = Cons.IH [OF dist pre rest]
  have le: "n \<le> n1" by (simp add: n1)
  show ?case
  proof (intro conjI allI impI)
    show "inherited t' = inherited t" using IH inh by simp
    show "n \<le> n'" using IH le by simp
    show "map fst (own t') = map fst (own t)" using IH names by simp
  next
    fix k assume "k \<notin> set (k0 # ks)"
    then show "map_of (own t') k = map_of (own t) k"
      using IH other by simp
  next
    fix k fn
    assume a: "k \<in> set (k0 # ks) \<and> map_of (own t) k = Some (Data (Fn fn))"
    show "if selected mn k fn
          then \<exists>m. n \<le> m \<and> m < n' \<and> map_of (own t') k = Some (Data (Fn (CoWrapped m fn)))
          else map_of (own t') k = Some (Data (Fn fn))"
    proof (cases "k = k0")
      case True
      then have fn: "fn = f0" using a f0 by simp
      have keep: "map_of (own t') k0 = map_of (own t1) k0"
        using IH k0_out by simp
      have "n1 \<le> n'" using IH by simp
      then show ?thesis
        using True fn keep at_k0 n1 by auto
    next
      case False
      then have "k \<in> set ks \<and> map_of (own t1) k = Some (Data (Fn fn))"
        using a other by simp
      then have "if selected mn k fn
          then \<exists>m. n1 \<le> m \<and> m < n' \<and> map_of (own t') k = Some (Data (Fn (CoWrapped m fn)))
          else map_of (own t') k = Some (Data (Fn fn))"
        using IH by blast
      then show ?thesis
        using le by (auto split: if_splits intro: order_trans)
    qed
  qed
qed

lemma collect_callback_Fn:
  assumes "map_of (own t) key = Some (Data (Fn fn))"
  shows "collect_callback t mn key (fs, n) =
           (if \<not> included mn key then (fs, n)
            else if selected mn key fn then (put_entry key (Fn (CoWrapped n fn)) fs, Suc n)
            else (put_entry key (Fn fn) fs, n))"
  using assms
  by (cases mn) (auto simp: collect_callback_def get_member_own selected_def included_def co_wrap_def Let_def)

lemma fold_collect_callback:
  assumes "distinct ks"
    and "\<forall>k \<in> set ks. \<exists>fn. map_of (own t) k = Some (Data (Fn fn))"
    and "fold (collect_callback t mn) ks (fs, n) = (fs', n')"
  shows "n \<le> n' \<and>
         (\<forall>k. k \<notin> set ks \<longrightarrow> map_of fs' k = map_of fs k) \<and>
         (\<forall>k fn. k \<in> set ks \<and> map_of (own t) k = Some (Data (Fn fn)) \<longrightarrow>
            (if \<not> included mn k \<or> k = ''__proto__'' then map_of fs' k = map_of fs k
             else if selected mn k fn
             then \<exists>m. n \<le> m \<and> m < n' \<and> map_of fs' k = Some (Fn (CoWrapped m fn))
             else map_of fs' k = Some (Fn fn)))"
  using assms
proof (induction ks arbitrary: fs n)
  case Nil
  then show ?case by simp
next
  case (Cons k0 ks)
  from Cons.prems(2) obtain f0 where f0: "map_of (own t) k0 = Some (Data (Fn f0))"
    by auto
  obtain fs1 n1 where step: "collect_callback t mn k0 (fs, n) = (fs1, n1)"
    by (cases "collect_callback t mn k0 (fs, n)")
  have fs1: "fs1 = (if \<not> included mn k0 then fs
                    else if selected mn k0 f0 then put_entry k0 (Fn (CoWrapped n f0)) fs
                    else put_entry k0 (Fn f0) fs)"
    and n1: "n1 = (if included mn k0 \<and> selected mn k0 f0 then Suc n else n)"
    using step collect_callback_Fn [OF f0, of mn fs n] by (auto split: if_splits)
  have other: "map_of fs1 k = map_of fs k" if "k \<noteq> k0" for k
    using that by (simp add: fs1 put_entry_def update_conv')
  have at_k0: "map_of fs1 k0 =
      (if \<not> included mn k0 \<or> k0 = ''__proto__'' then map_of fs k0
       else if selected mn k0 f0 then Some (Fn (CoWrapped n f0)) else Some (Fn f0))"
    by (simp add: fs1 put_entry_def update_conv')
  have k0_out: "k0 \<notin> set ks" and dist: "distinct ks"
    using Cons.prems(1) by simp_all
  have pre: "\<forall>k \<in> set ks. \<exists>fn. map_of (own t) k = Some (Data (Fn fn))"
    using Cons.prems(2) by simp
  have rest: "fold (collect_callback t mn) ks (fs1, n1) = (fs', n')"
    using Cons.prems(3) step by simp
  note IH = Cons.IH [OF dist pre rest]
  have le: "n \<le> n1" by (simp add: n1)
  show ?case
  proof (intro conjI allI impI)
    show "n \<le> n'" using IH le by simp
  next
    fix k assume "k \<notin> set (k0 # ks)"
    then show "map_of fs' k = map_of fs k"
      using IH other by simp
  next
    fix k fn
    assume a: "k \<in> set (k0 # ks) \<and> map_of (own t) k = Some (Data (Fn fn))"
    show "if \<not> included mn k \<or> k = ''__proto__'' then map_of fs' k = map_of fs k
          else if selected mn k fn
          then \<exists>m. n \<le> m \<and> m < n' \<and> map_of fs' k = Some (Fn (CoWrapped m fn))
          else map_of fs' k = Some (Fn fn)"
    proof (cases "k = k0")
      case True
      then have fn: "fn = f0" using a f0 by simp
      have keep: "map_of fs' k0 = map_of fs1 k0"
        using IH k0_out by simp
      have "n1 \<le> n'" using IH by simp
      then show ?thesis
        using True fn keep at_k0 n1 by auto
    next
      case False
      then have "k \<in> set ks \<and> map_of (own t) k = Some (Data (Fn fn))"
        using a by simp
      then have "if \<not> included mn k \<or> k = ''__proto__'' then map_of fs' k = map_of fs1 k
          else if selected mn k fn
          then \<exists>m. n1 \<le> m \<and> m < n' \<and> map_of fs' k = Some (Fn (CoWrapped m fn))
          else map_of fs' k = Some (Fn fn)"
        using IH by blast
      then show ?thesis
        using le other [OF False] by (auto split: if_splits intro: order_trans)
    qed
  qed
qed

lemma wrap_callback_empty: "wrap_callback (Some []) key st = st"
  by (cases st) (simp add: wrap_callback_def split: pvalue.splits)

lemma fold_wrap_callback_empty: "fold (wrap_callback (Some [])) ks st = st"
  by (induction ks arbitrary: st) (simp_all add: wrap_callback_empty)

lemma wrapFunctions_empty: "wrapFunctions t (Some []) n = (t, n)"
  by (simp add: wrapFunctions_def fold_wrap_callback_empty)

lemma wrapFunctions_result:
  assumes "well_formed t" and "wrapFunctions t mn n = (t', n')"
  shows "inherited t' = inherited t \<and> n \<le> n' \<and>
         getOwnPropertyNames t' = getOwnPropertyNames t \<and>
         (\<forall>key. key \<notin> set (actualMethodKeys t) \<longrightarrow> map_of (own t') key = map_of (own t) key) \<and>
         (\<forall>key fn. map_of (own t) key = Some (Data (Fn fn)) \<longrightarrow>
            (if selected mn key fn
             then \<exists>m. n \<le> m \<and> m < n' \<and> map_of (own t') key = Some (Data (Fn (CoWrapped m fn)))
             else map_of (own t') key = Some (Data (Fn fn))))"
proof -
  have d: "distinct (actualMethodKeys t)"
    using assms(1) by (rule distinct_actualMethodKeys)
  have c: "\<forall>k \<in> set (actualMethodKeys t). \<exists>fn. map_of (own t) k = Some (Data (Fn fn))"
    by (simp add: actualMethodKeys_iff)
  have f: "fold (wrap_callback mn) (actualMethodKeys t) (t, n) = (t', n')"
    using assms(2) by (simp add: wrapFunctions_def)
  from fold_wrap_callback [OF d c f] show ?thesis
    by (simp add: getOwnPropertyNames_def actualMethodKeys_iff)
qed

lemma get_member_cong:
  "map_of (own t') key = map_of (own t) key \<Longrightarrow> inherited t' = inherited t \<Longrightarrow>
     get_member t' key = get_member t key"
  by (simp add: get_member_def split: option.splits)

lemma wrapFunctions_untouched:
  assumes "well_formed t" and "wrapFunctions t mn n = (t', n')"
    and "key \<notin> set (actualMethodKeys t)"
  shows "map_of (own t') key = map_of (own t) key \<and> get_member t' key = get_member t key"
proof -
  from wrapFunctions_result [OF assms(1,2)] assms(3)
  have own: "map_of (own t') key = map_of (own t) key" and inh: "inherited t' = inherited t"
    by simp_all
  from own get_member_cong [OF own inh] show ?thesis by simp
qed

lemma wrapFunctions_candidate:
  assumes "well_formed t" and "wrapFunctions t mn n = (t', n')"
    and "key \<in> set (actualMethodKeys t)" and "get_member t key = Fn fn"
  shows "if selected mn key fn
         then \<exists>m. n \<le> m \<and> m < n' \<and> get_member t' key = Fn (CoWrapped m fn)
         else get_member t' key = Fn fn"
proof -
  from assms(3) obtain f where f: "map_of (own t) key = Some (Data (Fn f))"
    by (auto simp: actualMethodKeys_iff)
  with assms(4) have "f = fn" by (simp add: get_member_own)
  with f have own: "map_of (own t) key = Some (Data (Fn fn))" by simp
  from wrapFunctions_result [OF assms(1,2)] own
  have "if selected mn key fn
        then \<exists>m. n \<le> m \<and> m < n' \<and> map_of (own t') key = Some (Data (Fn (CoWrapped m fn)))
        else map_of (own t') key = Some (Data (Fn fn))"
    by blast
  then show ?thesis
    by (auto simp: get_member_own split: if_splits)
qed

section \<open>The exported functions in terms of the loops\<close>

lemma wrapStaticMethods_valid:
  "validateMethodNames mn = Inr names \<Longrightarrow>
     wrapStaticMethods k mn n =
       (Inr (ident k), k\<lparr>statics := fst (wrapFunctions (statics k) names n)\<rparr>,
        snd (wrapFunctions (statics k) names n))"
  by (simp add: wrapStaticMethods_def case_prod_beta)

lemma wrapInstanceMethods_valid:
  "validateMethodNames mn = Inr names \<Longrightarrow>
     wrapInstanceMethods k mn n =
       (Inr (ident k), k\<lparr>prototype := fst (wrapFunctions (prototype k) names n)\<rparr>,
        snd (wrapFunctions (prototype k) names n))"
  by (simp add: wrapInstanceMethods_def case_prod_beta)

lemma wrap_valid:
  "validateMethodNames mn = Inr names \<Longrightarrow>
     wrap k mn n =
       (Inr (ident k),
        k\<lparr>statics := fst (wrapFunctions (statics k) names n),
          prototype :=
            fst (wrapFunctions (prototype k) names (snd (wrapFunctions (statics k) names n)))\<rparr>,
        snd (wrapFunctions (prototype k) names (snd (wrapFunctions (statics k) names n))))"
  by (simp add: wrap_def wrapStaticMethods_valid wrapInstanceMethods_valid)

lemma validate_throws: 
  "truthy mn \<and> \<not> instanceof_Array mn \<Longrightarrow> validateMethodNames mn = Inl InvalidArgument"
  by (simp add: validateMethodNames_def)

lemma validate_passes:
  "\<not> (truthy mn \<and> \<not> instanceof_Array mn) \<Longrightarrow> \<exists>names. validateMethodNames mn = Inr names"
  by (simp add: validateMethodNames_def)

lemma throws_iff:
  "(fst (wrap k mn n) = Inl InvalidArgument \<longleftrightarrow> truthy mn \<and> \<not> instanceof_Array mn) \<and>
   (fst (wrapStaticMethods k mn n) = Inl InvalidArgument \<longleftrightarrow> truthy mn \<and> \<not> instanceof_Array mn) \<and>
   (fst (wrapInstanceMethods k mn n) = Inl InvalidArgument \<longleftrightarrow> truthy mn \<and> \<not> instanceof_Array mn)"
proof (cases "truthy mn \<and> \<not> instanceof_Array mn")
  case True
  then show ?thesis
    by (simp add: wrap_def wrapStaticMethods_def wrapInstanceMethods_def validate_throws)
next
  case False
  then obtain names where "validateMethodNames mn = Inr names"
    using validate_passes by blast
  with False show ?thesis
    by (simp add: wrap_valid wrapStaticMethods_valid wrapInstanceMethods_valid)
qed

lemma wrap_callback_uniform_eq: "wrap_callback mn = wrap_callback_uniform mn"
  by (intro ext)
    (simp add: wrap_callback_def wrap_callback_uniform_def split: prod.splits pvalue.splits)

lemma collect_callback_uniform_eq: "collect_callback t mn = collect_callback_uniform t mn"
  by (intro ext)
    (simp add: collect_callback_def collect_callback_uniform_def
      split: prod.splits pvalue.splits option.splits)

section \<open>Validation of the name filter\<close>

text \<open>
  What the code does with \<open>methodNames\<close>: \<open>wrap\<close>, \<open>wrapStaticMethods\<close> and
  \<open>wrapInstanceMethods\<close> throw exactly when the value is truthy and \<open>instanceof Array\<close>
  fails for it, and then leave the class and the count of adapters as they were.
\<close>

lemma throws_when_truthy_and_not_array:
  "(fst (wrap k mn n) = Inl InvalidArgument \<longleftrightarrow> truthy mn \<and> \<not> instanceof_Array mn) \<and>
   (fst (wrapStaticMethods k mn n) = Inl InvalidArgument
      \<longleftrightarrow> truthy mn \<and> \<not> instanceof_Array mn) \<and>
   (fst (wrapInstanceMethods k mn n) = Inl InvalidArgument
      \<longleftrightarrow> truthy mn \<and> \<not> instanceof_Array mn) \<and>
   (truthy mn \<and> \<not> instanceof_Array mn \<longrightarrow>
      snd (wrap k mn n) = (k, n) \<and>
      snd (wrapStaticMethods k mn n) = (k, n) \<and>
      snd (wrapInstanceMethods k mn n) = (k, n))"
  using throws_iff [of k mn n]
  by (simp add: wrap_def wrapStaticMethods_def wrapInstanceMethods_def validate_throws)

text \<open>
  C3. The docstrings of the three operations promise an error "if methodNames is provided,
  but is not an array". The code at the empty string, which is provided and is not an
  array: \<open>validateMethodNames\<close> lets it through, \<open>wrap\<close> raises nothing and returns the
  class, and it has wrapped as it does without a filter.
\<close>

theorem empty_string_is_let_through:
  "JStr [] \<noteq> JUndefined \<and> \<not> instanceof_Array (JStr []) \<and>
   validateMethodNames (JStr []) = Inr None \<and>
   fst (wrap Example (JStr []) 0) = Inr 7 \<and>
   wrap Example (JStr []) 0 = wrap Example JUndefined 0 \<and>
   get_member (statics (fst (snd (wrap Example (JStr []) 0)))) ''computeAsync''
     = Fn (CoWrapped 0 (Declared 1 ''Function''))"
  by code_simp

section \<open>The empty filter\<close>

text \<open>
  C10. With the empty array as \<open>methodNames\<close>, \<open>wrap\<close>, \<open>wrapStaticMethods\<close> and
  \<open>wrapInstanceMethods\<close> throw nothing, return the class they were given, and leave every
  property of the class and of its prototype as it was; no adapter is built.
\<close>

theorem empty_list_is_no_op:
  "wrap k (JArray []) n = (Inr (ident k), k, n) \<and>
   wrapStaticMethods k (JArray []) n = (Inr (ident k), k, n) \<and>
   wrapInstanceMethods k (JArray []) n = (Inr (ident k), k, n)"
  by (simp add: wrap_def wrapStaticMethods_def wrapInstanceMethods_def validateMethodNames_def
      wrapFunctions_empty)

section \<open>The two wrapping branches\<close>

text \<open>
  C9. The branch for a \<open>'GeneratorFunction'\<close> and the other branch make the same call, so
  \<open>wrapFunctions\<close> and \<open>getAllFunctions\<close> equal the versions with a single wrapping call
  for every selected callable, on every target, filter and count.
\<close>

theorem branches_are_one_wrapping:
  "wrapFunctions t methodNames n = wrapFunctions_uniform t methodNames n \<and>
   getAllFunctions t methodNames n = getAllFunctions_uniform t methodNames n"
  by (simp add: wrapFunctions_def wrapFunctions_uniform_def getAllFunctions_def
      getAllFunctions_uniform_def wrap_callback_uniform_eq collect_callback_uniform_eq)

section \<open>Wrapping under a rule\<close>

lemma adapter_of_iff:
  "adapter_of n n' v (Fn fn) \<longleftrightarrow> (\<exists>m. n \<le> m \<and> m < n' \<and> v = Fn (CoWrapped m fn))"
proof (cases v)
  case (Fn g)
  then show ?thesis by (cases g) auto
next
  case (Other x)
  then show ?thesis by simp
qed

lemma adapter_of_widen:
  "adapter_of a b v w \<Longrightarrow> n \<le> a \<Longrightarrow> b \<le> n' \<Longrightarrow> adapter_of n n' v w"
  by (induction a b v w rule: adapter_of.induct) auto

lemma adapter_differs: "adapter_of n n' v w \<Longrightarrow> v \<noteq> w"
proof (induction n n' v w rule: adapter_of.induct)
  case (1 n n' m g fn)
  have "CoWrapped m fn \<noteq> fn" by (induction fn) auto
  with 1 show ?case by auto
qed simp_all

lemma wrapFunctions_rule:
  assumes "well_formed t" and "wrapFunctions t names n = (t', n')"
  shows "wrapped_by_rule (selected names) t n t' n'"
  unfolding wrapped_by_rule_def
proof (intro allI impI)
  fix key fn
  assume a: "key \<in> set (actualMethodKeys t) \<and> get_member t key = Fn fn"
  from wrapFunctions_candidate [OF assms, of key fn] a
  show "if selected names key fn then adapter_of n n' (get_member t' key) (Fn fn)
        else get_member t' key = Fn fn"
    by (auto simp: adapter_of_iff split: if_splits)
qed

lemma wrapped_by_rule_widen:
  "wrapped_by_rule rule t a t' b \<Longrightarrow> n \<le> a \<Longrightarrow> b \<le> n' \<Longrightarrow> wrapped_by_rule rule t n t' n'"
  unfolding wrapped_by_rule_def
  by (auto split: if_splits intro: adapter_of_widen)

lemma wrapFunctions_mono: "well_formed t \<Longrightarrow> n \<le> snd (wrapFunctions t names n)"
  using wrapFunctions_result [of t names n "fst (wrapFunctions t names n)" "snd (wrapFunctions t names n)"]
  by simp

lemma wrap_family_rule:
  assumes v: "validateMethodNames mn = Inr names"
    and ws: "well_formed (statics k)" and wp: "well_formed (prototype k)"
  shows "(\<forall>r k' n'. wrap k mn n = (r, k', n') \<longrightarrow>
            wrapped_by_rule (selected names) (statics k) n (statics k') n' \<and>
            wrapped_by_rule (selected names) (prototype k) n (prototype k') n') \<and>
         (\<forall>r k' n'. wrapStaticMethods k mn n = (r, k', n') \<longrightarrow>
            wrapped_by_rule (selected names) (statics k) n (statics k') n') \<and>
         (\<forall>r k' n'. wrapInstanceMethods k mn n = (r, k', n') \<longrightarrow>
            wrapped_by_rule (selected names) (prototype k) n (prototype k') n')"
proof -
  obtain t1 n1 where s: "wrapFunctions (statics k) names n = (t1, n1)"
    by (cases "wrapFunctions (statics k) names n")
  obtain t2 n2 where p: "wrapFunctions (prototype k) names n1 = (t2, n2)"
    by (cases "wrapFunctions (prototype k) names n1")
  obtain t3 n3 where q: "wrapFunctions (prototype k) names n = (t3, n3)"
    by (cases "wrapFunctions (prototype k) names n")
  have le1: "n \<le> n1" using wrapFunctions_mono [OF ws, where names = names and n = n] s by simp
  have le2: "n1 \<le> n2" using wrapFunctions_mono [OF wp, where names = names and n = n1] p by simp
  have rs: "wrapped_by_rule (selected names) (statics k) n t1 n1"
    using wrapFunctions_rule [OF ws s] .
  have rp: "wrapped_by_rule (selected names) (prototype k) n1 t2 n2"
    using wrapFunctions_rule [OF wp p] .
  have rq: "wrapped_by_rule (selected names) (prototype k) n t3 n3"
    using wrapFunctions_rule [OF wp q] .
  have "wrapped_by_rule (selected names) (statics k) n t1 n2"
    using wrapped_by_rule_widen [OF rs _ le2] by simp
  moreover have "wrapped_by_rule (selected names) (prototype k) n t2 n2"
    using wrapped_by_rule_widen [OF rp le1] by simp
  ultimately show ?thesis
    using rs rq s p q
    by (simp add: wrap_valid [OF v] wrapStaticMethods_valid [OF v] wrapInstanceMethods_valid [OF v])
qed

lemma validate_falsy: "\<not> truthy mn \<Longrightarrow> validateMethodNames mn = Inr None"
  by (cases mn) (simp_all add: validateMethodNames_def)

lemma validate_array: "validateMethodNames (JArray xs) = Inr (Some xs)"
  by (simp add: validateMethodNames_def)

lemma selected_None:
  "selected None = (\<lambda>key fn. endsWith key ''Async'' \<or> constructor_name fn = ''GeneratorFunction'')"
  by (intro ext) (simp add: selected_def)

lemma selected_Some: "selected (Some xs) = (\<lambda>key fn. JStr key \<in> set xs)"
  by (intro ext) (simp add: selected_def indexOf_absent)

text \<open>
  C4. Without a name filter (\<open>methodNames\<close> absent, or any falsy value), after \<open>wrap\<close>,
  \<open>wrapStaticMethods\<close> or \<open>wrapInstanceMethods\<close> a candidate callable of the surface is an
  adapter built around it by this call if its name ends with \<open>Async\<close> or its
  \<open>constructor.name\<close> is \<open>'GeneratorFunction'\<close>, and is the very function it was
  otherwise.
\<close>

theorem no_filter_wraps_suffix_or_generator:
  assumes "\<not> truthy mn"
    and "well_formed (statics k)" and "well_formed (prototype k)"
  shows "(\<forall>r k' n'. wrap k mn n = (r, k', n') \<longrightarrow>
            wrapped_by_rule
              (\<lambda>key fn. endsWith key ''Async'' \<or> constructor_name fn = ''GeneratorFunction'')
              (statics k) n (statics k') n' \<and>
            wrapped_by_rule
              (\<lambda>key fn. endsWith key ''Async'' \<or> constructor_name fn = ''GeneratorFunction'')
              (prototype k) n (prototype k') n') \<and>
         (\<forall>r k' n'. wrapStaticMethods k mn n = (r, k', n') \<longrightarrow>
            wrapped_by_rule
              (\<lambda>key fn. endsWith key ''Async'' \<or> constructor_name fn = ''GeneratorFunction'')
              (statics k) n (statics k') n') \<and>
         (\<forall>r k' n'. wrapInstanceMethods k mn n = (r, k', n') \<longrightarrow>
            wrapped_by_rule
              (\<lambda>key fn. endsWith key ''Async'' \<or> constructor_name fn = ''GeneratorFunction'')
              (prototype k) n (prototype k') n')"
  using wrap_family_rule [OF validate_falsy [OF assms(1)] assms(2,3), of n]
  unfolding selected_None .

text \<open>
  The theorem at the example class: \<open>computeAsync\<close> (suffix) and \<open>steps\<close> (generator,
  no suffix) are replaced, \<open>run\<close> is left.
\<close>

theorem no_filter_witness:
  "\<not> truthy JUndefined \<and> well_formed (statics Example) \<and> well_formed (prototype Example) \<and>
   wrapped_by_rule
     (\<lambda>key fn. endsWith key ''Async'' \<or> constructor_name fn = ''GeneratorFunction'')
     (statics Example) 0
     (statics (fst (snd (wrap Example JUndefined 0)))) (snd (snd (wrap Example JUndefined 0))) \<and>
   wrapped_by_rule
     (\<lambda>key fn. endsWith key ''Async'' \<or> constructor_name fn = ''GeneratorFunction'')
     (prototype Example) 0
     (prototype (fst (snd (wrap Example JUndefined 0)))) (snd (snd (wrap Example JUndefined 0))) \<and>
   get_member (statics (fst (snd (wrap Example JUndefined 0)))) ''computeAsync''
     = Fn (CoWrapped 0 (Declared 1 ''Function'')) \<and>
   get_member (prototype (fst (snd (wrap Example JUndefined 0)))) ''steps''
     = Fn (CoWrapped 2 (Declared 4 ''GeneratorFunction'')) \<and>
   get_member (prototype (fst (snd (wrap Example JUndefined 0)))) ''run''
     = Fn (Declared 5 ''Function'')"
proof -
  have h1: "\<not> truthy JUndefined" by simp
  have h2: "well_formed (statics Example)" by (simp add: well_formed_def Example_def)
  have h3: "well_formed (prototype Example)" by (simp add: well_formed_def Example_def)
  have ev: "get_member (statics (fst (snd (wrap Example JUndefined 0)))) ''computeAsync''
       = Fn (CoWrapped 0 (Declared 1 ''Function'')) \<and>
     get_member (prototype (fst (snd (wrap Example JUndefined 0)))) ''steps''
       = Fn (CoWrapped 2 (Declared 4 ''GeneratorFunction'')) \<and>
     get_member (prototype (fst (snd (wrap Example JUndefined 0)))) ''run''
       = Fn (Declared 5 ''Function'')"
    by code_simp
  obtain r k' n' where w: "wrap Example JUndefined 0 = (r, k', n')"
    by (cases "wrap Example JUndefined 0")
  from no_filter_wraps_suffix_or_generator [OF h1 h2 h3, of 0] w
  have "wrapped_by_rule
     (\<lambda>key fn. endsWith key ''Async'' \<or> constructor_name fn = ''GeneratorFunction'')
     (statics Example) 0 (statics k') n' \<and>
   wrapped_by_rule
     (\<lambda>key fn. endsWith key ''Async'' \<or> constructor_name fn = ''GeneratorFunction'')
     (prototype Example) 0 (prototype k') n'"
    by blast
  with h1 h2 h3 ev show ?thesis by (simp add: w)
qed

text \<open>
  C5. With an array as \<open>methodNames\<close>, after \<open>wrap\<close>, \<open>wrapStaticMethods\<close> or
  \<open>wrapInstanceMethods\<close> a candidate callable of the surface is an adapter built around it
  by this call if its name is an element of the array, and is the very function it was
  otherwise, whatever its name ends with and whatever kind of function it is.
\<close>

theorem explicit_list_is_sole_criterion:
  assumes "well_formed (statics k)" and "well_formed (prototype k)"
  shows "(\<forall>r k' n'. wrap k (JArray names) n = (r, k', n') \<longrightarrow>
            wrapped_by_rule (\<lambda>key fn. JStr key \<in> set names) (statics k) n (statics k') n' \<and>
            wrapped_by_rule (\<lambda>key fn. JStr key \<in> set names) (prototype k) n (prototype k') n') \<and>
         (\<forall>r k' n'. wrapStaticMethods k (JArray names) n = (r, k', n') \<longrightarrow>
            wrapped_by_rule (\<lambda>key fn. JStr key \<in> set names) (statics k) n (statics k') n') \<and>
         (\<forall>r k' n'. wrapInstanceMethods k (JArray names) n = (r, k', n') \<longrightarrow>
            wrapped_by_rule (\<lambda>key fn. JStr key \<in> set names) (prototype k) n (prototype k') n')"
  using wrap_family_rule [OF validate_array assms, of names n]
  unfolding selected_Some .

text \<open>
  The theorem at the example class with the list \<open>['run']\<close>: the plain \<open>run\<close> is replaced,
  the suffix-named \<open>saveAsync\<close> and the generator \<open>loadAsync\<close> are left.
\<close>

theorem explicit_list_witness:
  "well_formed (statics Example) \<and> well_formed (prototype Example) \<and>
   wrapped_by_rule (\<lambda>key fn. JStr key \<in> set [JStr ''run''])
     (prototype Example) 0
     (prototype (fst (snd (wrap Example (JArray [JStr ''run'']) 0))))
     (snd (snd (wrap Example (JArray [JStr ''run'']) 0))) \<and>
   get_member (prototype (fst (snd (wrap Example (JArray [JStr ''run'']) 0)))) ''run''
     = Fn (CoWrapped 0 (Declared 5 ''Function'')) \<and>
   get_member (prototype (fst (snd (wrap Example (JArray [JStr ''run'']) 0)))) ''saveAsync''
     = Fn (Declared 6 ''Function'') \<and>
   get_member (prototype (fst (snd (wrap Example (JArray [JStr ''run'']) 0)))) ''loadAsync''
     = Fn (Declared 3 ''GeneratorFunction'')"
proof -
  have h2: "well_formed (statics Example)" by (simp add: well_formed_def Example_def)
  have h3: "well_formed (prototype Example)" by (simp add: well_formed_def Example_def)
  have ev: "get_member (prototype (fst (snd (wrap Example (JArray [JStr ''run'']) 0)))) ''run''
       = Fn (CoWrapped 0 (Declared 5 ''Function'')) \<and>
     get_member (prototype (fst (snd (wrap Example (JArray [JStr ''run'']) 0)))) ''saveAsync''
       = Fn (Declared 6 ''Function'') \<and>
     get_member (prototype (fst (snd (wrap Example (JArray [JStr ''run'']) 0)))) ''loadAsync''
       = Fn (Declared 3 ''GeneratorFunction'')"
    by code_simp
  obtain r k' n' where w: "wrap Example (JArray [JStr ''run'']) 0 = (r, k', n')"
    by (cases "wrap Example (JArray [JStr ''run'']) 0")
  from explicit_list_is_sole_criterion [OF h2 h3, of "[JStr ''run'']" 0] w
  have "wrapped_by_rule (\<lambda>key fn. JStr key \<in> set [JStr ''run''])
     (prototype Example) 0 (prototype k') n'"
    by blast
  with h2 h3 ev show ?thesis by (simp add: w)
qed

section \<open>The read-only variant\<close>

lemma getAllFunctions_result:
  assumes "well_formed t" and "getAllFunctions t names n = (fs, n')"
  shows "n \<le> n' \<and>
         (\<forall>key. key \<notin> set (actualMethodKeys t) \<longrightarrow> map_of fs key = None) \<and>
         (\<forall>key fn. map_of (own t) key = Some (Data (Fn fn)) \<longrightarrow>
            (if \<not> included names key \<or> key = ''__proto__'' then map_of fs key = None
             else if selected names key fn
             then \<exists>m. n \<le> m \<and> m < n' \<and> map_of fs key = Some (Fn (CoWrapped m fn))
             else map_of fs key = Some (Fn fn)))"
proof -
  have d: "distinct (actualMethodKeys t)"
    using assms(1) by (rule distinct_actualMethodKeys)
  have c: "\<forall>k \<in> set (actualMethodKeys t). \<exists>fn. map_of (own t) k = Some (Data (Fn fn))"
    by (simp add: actualMethodKeys_iff)
  have f: "fold (collect_callback t names) (actualMethodKeys t) ([], n) = (fs, n')"
    using assms(2) by (simp add: getAllFunctions_def)
  from fold_collect_callback [OF d c f] show ?thesis
    by (simp add: actualMethodKeys_iff)
qed

lemma getAllFunctions_collects:
  assumes "well_formed t" and "getAllFunctions t None n = (fs, n')"
  shows "collects_methods t n fs n'"
proof -
  note R = getAllFunctions_result [OF assms]
  have none: "map_of fs key = None \<longleftrightarrow>
      key \<notin> set (actualMethodKeys t) \<or> key = ''constructor'' \<or> key = ''__proto__''"
    for key
  proof (cases "key \<in> set (actualMethodKeys t)")
    case False
    with R show ?thesis by simp
  next
    case True
    then obtain fn where fn: "map_of (own t) key = Some (Data (Fn fn))"
      by (auto simp: actualMethodKeys_iff)
    with R have "if \<not> included None key \<or> key = ''__proto__'' then map_of fs key = None
             else if selected None key fn
             then \<exists>m. n \<le> m \<and> m < n' \<and> map_of fs key = Some (Fn (CoWrapped m fn))
             else map_of fs key = Some (Fn fn)"
      by blast
    with True show ?thesis
      by (auto simp: included_def split: if_splits)
  qed
  have some: "if endsWith key ''Async'' \<or> constructor_name fn = ''GeneratorFunction''
          then \<exists>a. map_of fs key = Some a \<and> adapter_of n n' a (Fn fn)
          else map_of fs key = Some (Fn fn)"
    if a: "key \<in> set (actualMethodKeys t) \<and> key \<noteq> ''constructor'' \<and> key \<noteq> ''__proto__'' \<and>
      get_member t key = Fn fn"
    for key fn
  proof -
    from a obtain f where f: "map_of (own t) key = Some (Data (Fn f))"
      by (auto simp: actualMethodKeys_iff)
    with a have "f = fn" by (simp add: get_member_own)
    with f have "map_of (own t) key = Some (Data (Fn fn))" by simp
    with R have "if \<not> included None key \<or> key = ''__proto__'' then map_of fs key = None
             else if selected None key fn
             then \<exists>m. n \<le> m \<and> m < n' \<and> map_of fs key = Some (Fn (CoWrapped m fn))
             else map_of fs key = Some (Fn fn)"
      by blast
    with a show ?thesis
      by (auto simp: included_def selected_def adapter_of_iff split: if_splits)
  qed
  show ?thesis
    unfolding collects_methods_def using none some by blast
qed

text \<open>
  What the code does: \<open>getStaticMethods\<close> and \<open>getInstanceMethods\<close> leave the class as it
  was, and the mapping they return holds the own properties of the surface that are
  functions, are not accessors and are named neither \<open>constructor\<close> nor \<open>__proto__\<close>: an
  adapter built by this call for one whose name ends with \<open>Async\<close> or that is a generator
  function, the function itself for any other.
\<close>

lemma get_methods_collect:
  assumes "well_formed (statics k)" and "well_formed (prototype k)"
  shows "(\<forall>functions k' n'. getStaticMethods k n = (functions, k', n') \<longrightarrow>
            k' = k \<and> collects_methods (statics k) n functions n') \<and>
         (\<forall>functions k' n'. getInstanceMethods k n = (functions, k', n') \<longrightarrow>
            k' = k \<and> collects_methods (prototype k) n functions n')"
proof (intro conjI allI impI)
  fix fs k' n'
  assume g: "getStaticMethods k n = (fs, k', n')"
  then have "getAllFunctions (statics k) None n = (fs, n')" and k: "k' = k"
    by (auto simp: getStaticMethods_def split: prod.splits)
  from getAllFunctions_collects [OF assms(1) this(1)] k
  show "k' = k" and "collects_methods (statics k) n fs n'" by simp_all
next
  fix fs k' n'
  assume g: "getInstanceMethods k n = (fs, k', n')"
  then have "getAllFunctions (prototype k) None n = (fs, n')" and k: "k' = k"
    by (auto simp: getInstanceMethods_def split: prod.splits)
  from getAllFunctions_collects [OF assms(2) this(1)] k
  show "k' = k" and "collects_methods (prototype k) n fs n'" by simp_all
qed

text \<open>
  C7. The mapping is to contain every own property that is a function, is not an accessor
  and is not the constructor. The code at \<open>WithProto\<close>: the method \<open>__proto__\<close> is an own
  data property holding a function and \<open>_actualMethodKeys\<close> lists it, but the mapping of
  \<open>getInstanceMethods\<close> has no entry for it; the class is left as it was. \<open>wrapFunctions\<close>
  does reach the same method: \<open>wrapInstanceMethods\<close> with \<open>['__proto__']\<close> replaces it in
  place.
\<close>

theorem proto_method_is_dropped:
  "well_formed (prototype WithProto) \<and>
   actualMethodKeys (prototype WithProto) = [''constructor'', ''__proto__'', ''run''] \<and>
   getOwnPropertyDescriptor (prototype WithProto) ''__proto__''
     = Some (Data (Fn (Declared 21 ''Function''))) \<and>
   getInstanceMethods WithProto 0 = ([(''run'', Fn (Declared 22 ''Function''))], WithProto, 0) \<and>
   map_of (fst (getInstanceMethods WithProto 0)) ''__proto__'' = None \<and>
   get_member
     (prototype (fst (snd (wrapInstanceMethods WithProto (JArray [JStr ''__proto__'']) 0))))
     ''__proto__'' = Fn (CoWrapped 0 (Declared 21 ''Function''))"
  by code_simp

section \<open>What is a candidate, and what is never touched\<close>

lemma same_outside_methods_refl: "same_outside_methods t t"
  by (simp add: same_outside_methods_def)

lemma wrapFunctions_frame:
  assumes "well_formed t"
  shows "same_outside_methods t (fst (wrapFunctions t names n))"
proof -
  obtain t' n' where w: "wrapFunctions t names n = (t', n')"
    by (cases "wrapFunctions t names n")
  from wrapFunctions_result [OF assms w] wrapFunctions_untouched [OF assms w]
  show ?thesis
    by (simp add: same_outside_methods_def w getOwnPropertyDescriptor_def)
qed

lemma wrap_family_frame:
  assumes ws: "well_formed (statics k)" and wp: "well_formed (prototype k)"
  shows "(\<forall>r k' n'. wrap k mn n = (r, k', n') \<longrightarrow>
            same_outside_methods (statics k) (statics k') \<and>
            same_outside_methods (prototype k) (prototype k')) \<and>
         (\<forall>r k' n'. wrapStaticMethods k mn n = (r, k', n') \<longrightarrow>
            same_outside_methods (statics k) (statics k') \<and>
            same_outside_methods (prototype k) (prototype k')) \<and>
         (\<forall>r k' n'. wrapInstanceMethods k mn n = (r, k', n') \<longrightarrow>
            same_outside_methods (statics k) (statics k') \<and>
            same_outside_methods (prototype k) (prototype k'))"
proof (cases "validateMethodNames mn")
  case (Inl e)
  then show ?thesis
    by (auto simp: wrap_def wrapStaticMethods_def wrapInstanceMethods_def
        same_outside_methods_refl)
next
  case (Inr names)
  show ?thesis
    using wrapFunctions_frame [OF ws, of names n] wrapFunctions_frame [OF wp, of names n]
      wrapFunctions_frame [OF wp, of names "snd (wrapFunctions (statics k) names n)"]
    by (auto simp: wrap_valid [OF Inr] wrapStaticMethods_valid [OF Inr]
        wrapInstanceMethods_valid [OF Inr] same_outside_methods_refl)
qed

lemma get_methods_only_candidates:
  assumes "well_formed t" and "key \<notin> set (actualMethodKeys t)"
  shows "map_of (fst (getAllFunctions t names n)) key = None"
proof -
  obtain fs n' where g: "getAllFunctions t names n = (fs, n')"
    by (cases "getAllFunctions t names n")
  from getAllFunctions_result [OF assms(1) g] assms(2) show ?thesis
    by (simp add: g)
qed

text \<open>
  C8. \<open>_actualMethodKeys\<close> lists a name exactly when the target has an own data property
  of that name whose value is a function. Whatever \<open>methodNames\<close> is, \<open>wrap\<close>,
  \<open>wrapStaticMethods\<close> and \<open>wrapInstanceMethods\<close> leave the inherited members and every
  property that is not listed (accessors, values that are not functions) as they were,
  and the mappings of \<open>getStaticMethods\<close> and \<open>getInstanceMethods\<close> have no entry for a
  name that is not listed.
\<close>

theorem candidates_are_own_plain_functions:
  assumes "well_formed (statics k)" and "well_formed (prototype k)"
  shows "(key \<in> set (actualMethodKeys t)
            \<longleftrightarrow> (\<exists>fn. getOwnPropertyDescriptor t key = Some (Data (Fn fn)))) \<and>
         (\<forall>r k' n'. wrap k mn n = (r, k', n') \<longrightarrow>
            same_outside_methods (statics k) (statics k') \<and>
            same_outside_methods (prototype k) (prototype k')) \<and>
         (\<forall>r k' n'. wrapStaticMethods k mn n = (r, k', n') \<longrightarrow>
            same_outside_methods (statics k) (statics k') \<and>
            same_outside_methods (prototype k) (prototype k')) \<and>
         (\<forall>r k' n'. wrapInstanceMethods k mn n = (r, k', n') \<longrightarrow>
            same_outside_methods (statics k) (statics k') \<and>
            same_outside_methods (prototype k) (prototype k')) \<and>
         (\<forall>key. key \<notin> set (actualMethodKeys (statics k)) \<longrightarrow>
            map_of (fst (getStaticMethods k n)) key = None) \<and>
         (\<forall>key. key \<notin> set (actualMethodKeys (prototype k)) \<longrightarrow>
            map_of (fst (getInstanceMethods k n)) key = None)"
proof -
  have a: "key \<in> set (actualMethodKeys t)
            \<longleftrightarrow> (\<exists>fn. getOwnPropertyDescriptor t key = Some (Data (Fn fn)))"
    by (simp add: actualMethodKeys_iff getOwnPropertyDescriptor_def)
  have b: "\<forall>key. key \<notin> set (actualMethodKeys (statics k)) \<longrightarrow>
            map_of (fst (getStaticMethods k n)) key = None"
    using get_methods_only_candidates [OF assms(1), where names = None and n = n]
    by (simp add: getStaticMethods_def case_prod_beta)
  have c: "\<forall>key. key \<notin> set (actualMethodKeys (prototype k)) \<longrightarrow>
            map_of (fst (getInstanceMethods k n)) key = None"
    using get_methods_only_candidates [OF assms(2), where names = None and n = n]
    by (simp add: getInstanceMethods_def case_prod_beta)
  from a b c wrap_family_frame [OF assms, of mn n] show ?thesis
    by blast
qed

text \<open>
  The theorem at the example class: the getter \<open>size\<close>, which gives a function, and the
  inherited \<open>toString\<close> are not candidates, keep their values and are not in the mapping.
\<close>

theorem candidates_witness:
  "well_formed (statics Example) \<and> well_formed (prototype Example) \<and>
   actualMethodKeys (prototype Example)
     = [''constructor'', ''loadAsync'', ''steps'', ''run'', ''saveAsync''] \<and>
   ''size'' \<notin> set (actualMethodKeys (prototype Example)) \<and>
   (\<nexists>fn. getOwnPropertyDescriptor (prototype Example) ''size'' = Some (Data (Fn fn))) \<and>
   same_outside_methods (prototype Example) (prototype (fst (snd (wrap Example JUndefined 0)))) \<and>
   get_member (prototype (fst (snd (wrap Example JUndefined 0)))) ''size''
     = Fn (Declared 8 ''Function'') \<and>
   get_member (prototype (fst (snd (wrap Example JUndefined 0)))) ''toString''
     = Fn (Declared 9 ''Function'') \<and>
   map_of (fst (getInstanceMethods Example 0)) ''size'' = None \<and>
   map_of (fst (getInstanceMethods Example 0)) ''toString'' = None"
proof -
  have h2: "well_formed (statics Example)" by (simp add: well_formed_def Example_def)
  have h3: "well_formed (prototype Example)" by (simp add: well_formed_def Example_def)
  have keys: "actualMethodKeys (prototype Example)
     = [''constructor'', ''loadAsync'', ''steps'', ''run'', ''saveAsync'']"
    by code_simp
  have ev: "get_member (prototype (fst (snd (wrap Example JUndefined 0)))) ''size''
       = Fn (Declared 8 ''Function'') \<and>
     get_member (prototype (fst (snd (wrap Example JUndefined 0)))) ''toString''
       = Fn (Declared 9 ''Function'')"
    by code_simp
  have out: "''size'' \<notin> set (actualMethodKeys (prototype Example)) \<and>
     ''toString'' \<notin> set (actualMethodKeys (prototype Example))"
    by (simp add: keys)
  obtain r k' n' where w: "wrap Example JUndefined 0 = (r, k', n')"
    by (cases "wrap Example JUndefined 0")
  note T = candidates_are_own_plain_functions [OF h2 h3,
      where key = "''size''" and t = "prototype Example" and mn = JUndefined and n = 0]
  from T out have none: "\<nexists>fn. getOwnPropertyDescriptor (prototype Example) ''size'' = Some (Data (Fn fn))"
    by blast
  from T w have frame: "same_outside_methods (prototype Example) (prototype k')"
    by blast
  from T out have maps: "map_of (fst (getInstanceMethods Example 0)) ''size'' = None \<and>
     map_of (fst (getInstanceMethods Example 0)) ''toString'' = None"
    by blast
  from h2 h3 keys out none frame ev maps show ?thesis
    by (simp add: w)
qed

section \<open>The constructor\<close>

lemma endsWith_constructor: "\<not> endsWith ''constructor'' ''Async''"
  by (simp add: endsWith_def)

lemma key_kept:
  assumes "well_formed t"
    and "\<forall>fn. get_member t key = Fn fn \<longrightarrow> \<not> selected names key fn"
  shows "getOwnPropertyDescriptor (fst (wrapFunctions t names n)) key
           = getOwnPropertyDescriptor t key \<and>
         get_member (fst (wrapFunctions t names n)) key = get_member t key"
proof -
  obtain t' n' where w: "wrapFunctions t names n = (t', n')"
    by (cases "wrapFunctions t names n")
  note R = wrapFunctions_result [OF assms(1) w]
  have own: "map_of (own t') key = map_of (own t) key"
  proof (cases "key \<in> set (actualMethodKeys t)")
    case False
    with R show ?thesis by simp
  next
    case True
    then obtain fn where fn: "map_of (own t) key = Some (Data (Fn fn))"
      by (auto simp: actualMethodKeys_iff)
    then have "get_member t key = Fn fn" by (rule get_member_own)
    with assms(2) have "\<not> selected names key fn" by simp
    with R fn show ?thesis by auto
  qed
  moreover have "inherited t' = inherited t" using R by simp
  ultimately show ?thesis
    using get_member_cong [of t' key t] by (simp add: w getOwnPropertyDescriptor_def)
qed

lemma constructor_kept:
  assumes "well_formed t"
    and "case names of
           Some xs \<Rightarrow> JStr ''constructor'' \<notin> set xs
         | None \<Rightarrow> \<not> generator_valued (get_member t ''constructor'')"
  shows "constructor_unchanged t (fst (wrapFunctions t names n))"
proof -
  have "\<forall>fn. get_member t ''constructor'' = Fn fn \<longrightarrow> \<not> selected names ''constructor'' fn"
    using assms(2)
    by (cases names) (auto simp: selected_def indexOf_absent endsWith_constructor)
  from key_kept [OF assms(1) this] show ?thesis
    by (simp add: constructor_unchanged_def)
qed

lemma constructor_not_collected:
  assumes "well_formed t"
  shows "map_of (fst (getAllFunctions t None n)) ''constructor'' = None"
proof -
  obtain fs n' where g: "getAllFunctions t None n = (fs, n')"
    by (cases "getAllFunctions t None n")
  from getAllFunctions_collects [OF assms g] show ?thesis
    by (simp add: collects_methods_def g)
qed

text \<open>
  C2, as amended. For a valid \<open>methodNames\<close>, \<open>wrap\<close>, \<open>wrapStaticMethods\<close> and
  \<open>wrapInstanceMethods\<close> leave the property \<open>constructor\<close> of both surfaces as it was
  when \<open>methodNames\<close> is an array that does not contain \<open>'constructor'\<close>, and when there
  is no filter and the constructor is not a generator function. The mappings of
  \<open>getStaticMethods\<close> and \<open>getInstanceMethods\<close> never have an entry \<open>constructor\<close>.
\<close>

theorem constructor_kept_unless_targeted:
  assumes "validateMethodNames mn = Inr names"
    and "well_formed (statics k)" and "well_formed (prototype k)"
    and "case names of
           Some xs \<Rightarrow> JStr ''constructor'' \<notin> set xs
         | None \<Rightarrow> \<not> generator_valued (get_member (statics k) ''constructor'') \<and>
                    \<not> generator_valued (get_member (prototype k) ''constructor'')"
  shows "(\<forall>r k' n'. wrap k mn n = (r, k', n') \<longrightarrow>
            constructor_unchanged (statics k) (statics k') \<and>
            constructor_unchanged (prototype k) (prototype k')) \<and>
         (\<forall>r k' n'. wrapStaticMethods k mn n = (r, k', n') \<longrightarrow>
            constructor_unchanged (statics k) (statics k') \<and>
            constructor_unchanged (prototype k) (prototype k')) \<and>
         (\<forall>r k' n'. wrapInstanceMethods k mn n = (r, k', n') \<longrightarrow>
            constructor_unchanged (statics k) (statics k') \<and>
            constructor_unchanged (prototype k) (prototype k')) \<and>
         map_of (fst (getStaticMethods k n)) ''constructor'' = None \<and>
         map_of (fst (getInstanceMethods k n)) ''constructor'' = None"
proof -
  have s: "case names of
           Some xs \<Rightarrow> JStr ''constructor'' \<notin> set xs
         | None \<Rightarrow> \<not> generator_valued (get_member (statics k) ''constructor'')"
    and p: "case names of
           Some xs \<Rightarrow> JStr ''constructor'' \<notin> set xs
         | None \<Rightarrow> \<not> generator_valued (get_member (prototype k) ''constructor'')"
    using assms(4) by (auto split: option.splits)
  have refl: "constructor_unchanged t t" for t
    by (simp add: constructor_unchanged_def)
  have g1: "map_of (fst (getStaticMethods k n)) ''constructor'' = None"
    using constructor_not_collected [OF assms(2), of n]
    by (simp add: getStaticMethods_def case_prod_beta)
  have g2: "map_of (fst (getInstanceMethods k n)) ''constructor'' = None"
    using constructor_not_collected [OF assms(3), of n]
    by (simp add: getInstanceMethods_def case_prod_beta)
  show ?thesis
    using constructor_kept [OF assms(2) s, of n] constructor_kept [OF assms(3) p, of n]
      constructor_kept [OF assms(3) p, of "snd (wrapFunctions (statics k) names n)"]
      g1 g2
    by (auto simp: wrap_valid [OF assms(1)] wrapStaticMethods_valid [OF assms(1)]
        wrapInstanceMethods_valid [OF assms(1)] refl)
qed

text \<open>The theorem at the example class with the list \<open>['run']\<close>.\<close>

theorem constructor_kept_witness:
  "validateMethodNames (JArray [JStr ''run'']) = Inr (Some [JStr ''run'']) \<and>
   well_formed (statics Example) \<and> well_formed (prototype Example) \<and>
   JStr ''constructor'' \<notin> set [JStr ''run''] \<and>
   constructor_unchanged (prototype Example)
     (prototype (fst (snd (wrap Example (JArray [JStr ''run'']) 0)))) \<and>
   get_member (prototype (fst (snd (wrap Example (JArray [JStr ''run'']) 0)))) ''constructor''
     = Fn (Declared 7 ''Function'') \<and>
   map_of (fst (getInstanceMethods Example 0)) ''constructor'' = None"
proof -
  have h1: "validateMethodNames (JArray [JStr ''run'']) = Inr (Some [JStr ''run''])"
    by (simp add: validateMethodNames_def)
  have h2: "well_formed (statics Example)" by (simp add: well_formed_def Example_def)
  have h3: "well_formed (prototype Example)" by (simp add: well_formed_def Example_def)
  have h4: "case Some [JStr ''run''] of
           Some xs \<Rightarrow> JStr ''constructor'' \<notin> set xs
         | None \<Rightarrow> \<not> generator_valued (get_member (statics Example) ''constructor'') \<and>
                    \<not> generator_valued (get_member (prototype Example) ''constructor'')"
    by simp
  have ev: "get_member (prototype (fst (snd (wrap Example (JArray [JStr ''run'']) 0)))) ''constructor''
     = Fn (Declared 7 ''Function'')"
    by code_simp
  obtain r k' n' where w: "wrap Example (JArray [JStr ''run'']) 0 = (r, k', n')"
    by (cases "wrap Example (JArray [JStr ''run'']) 0")
  note T = constructor_kept_unless_targeted [OF h1 h2 h3 h4, of 0]
  from T w have "constructor_unchanged (prototype Example) (prototype k')"
    by blast
  moreover from T have "map_of (fst (getInstanceMethods Example 0)) ''constructor'' = None"
    by blast
  ultimately show ?thesis
    using h1 h2 h3 ev by (simp add: w)
qed

text \<open>
  The claim as stated fails for a list that names the constructor: \<open>['constructor']\<close> is
  a valid filter, and after \<open>wrap\<close> the prototype's \<open>constructor\<close> is an adapter, not the
  function it was.
\<close>

theorem listed_constructor_counterexample:
  "validateMethodNames (JArray [JStr ''constructor'']) = Inr (Some [JStr ''constructor'']) \<and>
   get_member (prototype (fst (snd (wrap Example (JArray [JStr ''constructor'']) 0))))
     ''constructor'' = Fn (CoWrapped 0 (Declared 7 ''Function'')) \<and>
   get_member (prototype Example) ''constructor'' = Fn (Declared 7 ''Function'') \<and>
   get_member (prototype (fst (snd (wrap Example (JArray [JStr ''constructor'']) 0))))
     ''constructor'' \<noteq> get_member (prototype Example) ''constructor''"
  by code_simp

section \<open>Driving two suspensions\<close>

text \<open>
  C6. For a suspend-style callable whose step sequence, once started, yields a deferred
  value that resolves to \<open>v1\<close>, resumed with \<open>v1\<close> yields one that resolves to \<open>v2\<close>, and
  resumed with \<open>v2\<close> returns \<open>v3\<close>: the deferred result of the adapted call resolves to
  \<open>v3\<close>, and after its start the sequence was resumed exactly twice, with \<open>v1\<close> and then
  with \<open>v2\<close>.
\<close>

theorem two_yields_then_return:
  assumes "resume c (start c this args) Begin = Yield (Fulfilled v1) s1"
    and "resume c s1 (Resume v1) = Yield (Fulfilled v2) s2"
    and "resume c s2 (Resume v2) = Complete v3"
  shows "adapted_call c this args = Some (Fulfilled v3, [Begin, Resume v1, Resume v2])"
proof -
  have third: "drive (resume c) s2 (Resume v2) [Begin, Resume v1]
      = Some (Fulfilled v3, [Begin, Resume v1, Resume v2])"
    by (subst drive.simps) (simp add: assms(3))
  have second: "drive (resume c) s1 (Resume v1) [Begin]
      = drive (resume c) s2 (Resume v2) [Begin, Resume v1]"
    by (subst drive.simps) (simp add: assms(2))
  have first: "drive (resume c) (start c this args) Begin []
      = drive (resume c) s1 (Resume v1) [Begin]"
    by (subst drive.simps) (simp add: assms(1))
  show ?thesis
    by (simp add: adapted_call_def first second third)
qed

text \<open>The theorem at the generator function of the example.\<close>

theorem two_yields_witness:
  "resume two_steps (start two_steps JUndefined []) Begin = Yield (Fulfilled (JStr ''a'')) 1 \<and>
   resume two_steps 1 (Resume (JStr ''a'')) = Yield (Fulfilled (JStr ''b'')) 2 \<and>
   resume two_steps 2 (Resume (JStr ''b'')) = Complete (JStr ''c'') \<and>
   adapted_call two_steps JUndefined []
     = Some (Fulfilled (JStr ''c''), [Begin, Resume (JStr ''a''), Resume (JStr ''b'')])"
proof -
  have h1: "resume two_steps (start two_steps JUndefined []) Begin
      = Yield (Fulfilled (JStr ''a'')) 1"
    by (simp add: two_steps_def)
  have h2: "resume two_steps 1 (Resume (JStr ''a'')) = Yield (Fulfilled (JStr ''b'')) 2"
    by (simp add: two_steps_def)
  have h3: "resume two_steps 2 (Resume (JStr ''b'')) = Complete (JStr ''c'')"
    by (simp add: two_steps_def)
  from two_yields_then_return [OF h1 h2 h3] h1 h2 h3 show ?thesis
    by simp
qed

end
